theory Spec2Isabelle
  imports Complex_Main "HOL-Library.Word"
begin

section \<open>Numbers and buffers of the JavaScript source\<close>

text \<open>
  A \<open>Buffer\<close> is a list of bytes.  A JavaScript number is a rational, \<open>NaN\<close>
  or one of the two infinities (the sign of zero is not modelled).  The operations of
  this section are exact; on whole numbers below \<open>2 ^ 53\<close> they are the operations
  of the source.  The operations that round to a double as the source does come in a
  later section, with the builder that uses them.
\<close>

type_synonym bytes = "8 word list"

datatype jsnum = NaN | NegInf | Fin rat | PosInf

text \<open>The fee rate argument may be missing altogether.\<close>

datatype jsval = Undefined | Null | Number jsnum

fun js_lt :: "jsnum \<Rightarrow> jsnum \<Rightarrow> bool" where
  "js_lt NaN y = False"
| "js_lt x NaN = False"
| "js_lt (Fin a) (Fin b) = (a < b)"
| "js_lt NegInf NegInf = False"
| "js_lt NegInf y = True"
| "js_lt x NegInf = False"
| "js_lt PosInf y = False"
| "js_lt (Fin a) PosInf = True"

fun js_neg :: "jsnum \<Rightarrow> jsnum" where
  "js_neg NaN = NaN"
| "js_neg NegInf = PosInf"
| "js_neg (Fin a) = Fin (- a)"
| "js_neg PosInf = NegInf"

fun js_add :: "jsnum \<Rightarrow> jsnum \<Rightarrow> jsnum" where
  "js_add NaN y = NaN"
| "js_add x NaN = NaN"
| "js_add (Fin a) (Fin b) = Fin (a + b)"
| "js_add (Fin a) y = y"
| "js_add x (Fin b) = x"
| "js_add PosInf PosInf = PosInf"
| "js_add NegInf NegInf = NegInf"
| "js_add PosInf NegInf = NaN"
| "js_add NegInf PosInf = NaN"

definition js_sub :: "jsnum \<Rightarrow> jsnum \<Rightarrow> jsnum" where
  "js_sub x y = js_add x (js_neg y)"

text \<open>The sign of a number: \<open>None\<close> for \<open>NaN\<close>, otherwise \<open>-1\<close>, \<open>0\<close> or \<open>1\<close>.\<close>

fun js_sign :: "jsnum \<Rightarrow> int option" where
  "js_sign NaN = None"
| "js_sign NegInf = Some (- 1)"
| "js_sign (Fin a) = Some (if a < 0 then - 1 else if a = 0 then 0 else 1)"
| "js_sign PosInf = Some 1"

definition js_inf :: "int \<Rightarrow> jsnum" where
  "js_inf s = (if s = 0 then NaN else if s < 0 then NegInf else PosInf)"

fun js_mul :: "jsnum \<Rightarrow> jsnum \<Rightarrow> jsnum" where
  "js_mul (Fin a) (Fin b) = Fin (a * b)"
| "js_mul x y =
     (case (js_sign x, js_sign y) of
        (Some s, Some t) \<Rightarrow> js_inf (s * t)
      | _ \<Rightarrow> NaN)"

fun js_div :: "jsnum \<Rightarrow> jsnum \<Rightarrow> jsnum" where
  "js_div NaN y = NaN"
| "js_div x NaN = NaN"
| "js_div (Fin a) (Fin b) =
     (if b = 0 then js_inf (if a < 0 then - 1 else if a = 0 then 0 else 1)
      else Fin (a / b))"
| "js_div (Fin a) y = Fin 0"
| "js_div x (Fin b) =
     (case js_sign x of
        Some s \<Rightarrow> js_inf (if b < 0 then - s else s)
      | None \<Rightarrow> NaN)"
| "js_div x y = NaN"

text \<open>Truthiness, as tested by \<open>!feeRate\<close>.\<close>

fun truthy :: "jsval \<Rightarrow> bool" where
  "truthy Undefined = False"
| "truthy Null = False"
| "truthy (Number NaN) = False"
| "truthy (Number (Fin a)) = (a \<noteq> 0)"
| "truthy (Number x) = True"

text \<open>
  Coercion of the fee rate to a number, as done by \<open><\<close> and \<open>*\<close>:
  \<open>undefined\<close> becomes \<open>NaN\<close> and \<open>null\<close> becomes \<open>0\<close>.
\<close>

fun toNumber :: "jsval \<Rightarrow> jsnum" where
  "toNumber Undefined = NaN"
| "toNumber Null = Fin 0"
| "toNumber (Number x) = x"

definition num :: "int \<Rightarrow> jsnum" where
  "num k = Fin (of_int k)"

section \<open>Data of the transaction builder\<close>

text \<open>
  An unspent output as delivered by the block chain API
  (fields \<open>tx_hash\<close>, \<open>tx_output_n\<close>, \<open>value\<close>, \<open>script\<close>; the hash and the
  script are hexadecimal strings, the value is a number of satoshis).
\<close>

record utxo =
  tx_hash :: string
  tx_output_n :: nat
  utxo_value :: int
  utxo_script :: string

text \<open>The transaction object of the library: inputs, outputs, version, lock time.\<close>

record txin =
  in_hash :: bytes
  in_index :: nat
  in_script :: bytes
  in_sequence :: nat

record txout =
  out_script :: bytes
  out_value :: jsnum

record transaction =
  version :: nat
  locktime :: nat
  ins :: "txin list"
  outs :: "txout list"

text \<open>
  The wallet: \<open>wallet.addresses.cosmos\<close> (a hexadecimal string),
  \<open>wallet.privateKeys.bitcoin\<close> and \<open>wallet.publicKeys.bitcoin\<close>.
\<close>

record wallet =
  addresses_cosmos :: string
  privateKeys_bitcoin :: bytes
  publicKeys_bitcoin :: bytes

text \<open>An ECDSA signature is the pair \<open>(r, s)\<close>.\<close>

type_synonym ecdsa_sig = "nat \<times> nat"

text \<open>
  The functions that \<open>src/bitcoin.js\<close> imports and that are not defined in it are
  parameters of the model: the two hash functions of \<open>./hash.js\<close>, the hexadecimal
  \<open>Buffer\<close> constructor, the script templates and the signature hash of
  \<open>bitcoinjs-lib\<close>, and the signing and DER export of \<open>secp256k1\<close>.
  They are taken to return a value on every argument.
\<close>

record lib =
  sha2 :: "bytes \<Rightarrow> bytes"
  ripemd160 :: "bytes \<Rightarrow> bytes"
  Buffer_hex :: "string \<Rightarrow> bytes"
  toOutputScript :: "string \<Rightarrow> bytes"
  pubKeyHashOutput :: "bytes \<Rightarrow> bytes"
  pubKeyHashInput :: "bytes \<Rightarrow> bytes \<Rightarrow> bytes"
  hashForSignature :: "transaction \<Rightarrow> nat \<Rightarrow> bytes \<Rightarrow> nat \<Rightarrow> bytes"
  secp256k1_sign :: "bytes \<Rightarrow> bytes \<Rightarrow> ecdsa_sig"
  signatureExport :: "ecdsa_sig \<Rightarrow> bytes"

text \<open>
  The failures of \<open>createFinalTx\<close>, named as in the specification:
  \<^item> \<open>InsufficientAggregateAmount minimum actual\<close> is
    \<^verbatim>\<open>Intermediate tx is smaller than minimum\<close>;
  \<^item> \<open>InvalidFeeRate\<close> is \<^verbatim>\<open>Must specify a transaction fee rate\<close>;
  \<^item> \<open>FeeExceedsAvailableFunds length rate fee output\<close> is
    \<^verbatim>\<open>Not enough coins given to pay fee\<close>;
  \<^item> \<open>TypeError\<close> is the exception of reading \<open>script\<close> from an undefined
    previous output.
\<close>

datatype error =
  InsufficientAggregateAmount int int
| InvalidFeeRate
| FeeExceedsAvailableFunds nat jsval jsnum jsnum
| TypeError

record build_result =
  tx :: transaction
  paidAmount :: int
  feeAmount :: jsnum
  atomAmount :: jsnum

section \<open>Constants\<close>

definition EXODUS_ADDRESS :: string where
  "EXODUS_ADDRESS = ''1EaV33reN8XWWUfs5jkbGMD399vie5KQc4''"

text \<open>The flag \<open>DEV\<close> is read from the environment, so it is an argument here.\<close>

definition MINIMUM_AMOUNT :: "bool \<Rightarrow> int" where
  "MINIMUM_AMOUNT DEV = (if DEV then 60000 else 1000000)"

definition ATOMS_PER_BTC :: int where
  "ATOMS_PER_BTC = 2000"

definition MINIMUM_OUTPUT :: int where
  "MINIMUM_OUTPUT = 1000"

text \<open>\<open>Transaction.SIGHASH_ALL\<close> of the library.\<close>

definition SIGHASH_ALL :: nat where
  "SIGHASH_ALL = 1"

section \<open>Helpers of \<open>./util.js\<close>\<close>

text \<open>
  Modelled from the spec: \<open>byte\<close> and \<open>concat\<close> of \<open>./util.js\<close> are not under
  \<open>src/\<close>.  The specification prepends "a single version byte" and appends "a single
  byte equal to the signature-hash type": \<open>byte\<close> makes the buffer of one byte,
  \<open>concat\<close> joins two buffers.
\<close>

definition byte :: "nat \<Rightarrow> bytes" where
  "byte n = [word_of_nat n]"

definition concat_bytes :: "bytes \<Rightarrow> bytes \<Rightarrow> bytes" where
  "concat_bytes a b = a @ b"

section \<open>The transaction object\<close>

text \<open>
  Modelled from the spec: \<open>Transaction\<close> of \<open>bitcoinjs-lib\<close> is not under
  \<open>src/\<close>.  A new transaction has version 1, lock time 0 and neither inputs nor
  outputs; \<open>addInput\<close> appends an unsigned input (empty unlocking script, final
  sequence number) and \<open>addOutput\<close> appends an output.
\<close>

definition new_Transaction :: transaction where
  "new_Transaction = \<lparr>version = 1, locktime = 0, ins = [], outs = []\<rparr>"

definition addInput :: "transaction \<Rightarrow> bytes \<Rightarrow> nat \<Rightarrow> transaction" where
  "addInput t txid n =
     t\<lparr>ins := ins t @ [\<lparr>in_hash = txid, in_index = n, in_script = [], in_sequence = 4294967295\<rparr>]\<rparr>"

definition addOutput :: "transaction \<Rightarrow> bytes \<Rightarrow> jsnum \<Rightarrow> transaction" where
  "addOutput t scriptPubKey v =
     t\<lparr>outs := outs t @ [\<lparr>out_script = scriptPubKey, out_value = v\<rparr>]\<rparr>"

text \<open>
  Modelled from the spec: \<open>byteLength\<close> of \<open>bitcoinjs-lib\<close> is not under \<open>src/\<close>.
  It is the length of the legacy serialization: 4 bytes of version, the number of
  inputs as a variable-length integer, for each input 32 bytes of hash, 4 of index,
  the script with its length prefix and 4 of sequence, the number of outputs, for
  each output 8 bytes of value and the script with its length prefix, and 4 bytes of
  lock time.  Empty unlocking scripts count with their one-byte length prefix.
\<close>

definition varIntSize :: "nat \<Rightarrow> nat" where
  "varIntSize n =
     (if n < 253 then 1 else if n \<le> 65535 then 3 else if n \<le> 4294967295 then 5 else 9)"

definition varSliceSize :: "bytes \<Rightarrow> nat" where
  "varSliceSize s = varIntSize (length s) + length s"

definition byteLength :: "transaction \<Rightarrow> nat" where
  "byteLength t =
     8 + varIntSize (length (ins t)) + varIntSize (length (outs t))
       + sum_list (map (\<lambda>i. 40 + varSliceSize (in_script i)) (ins t))
       + sum_list (map (\<lambda>out. 8 + varSliceSize (out_script out)) (outs t))"

section \<open>Signing\<close>

text \<open>The order of the group of the curve secp256k1.\<close>

definition curve_order :: nat where
  "curve_order = 115792089237316195423570985008687907852837564279074904382605163141518161494337"

text \<open>
  Modelled from the spec: \<open>signatureNormalize\<close> of \<open>secp256k1\<close> is not under
  \<open>src/\<close>.  The specification: "if S > curve_order/2, replace S with
  curve_order - S".
\<close>

definition signatureNormalize :: "ecdsa_sig \<Rightarrow> ecdsa_sig" where
  "signatureNormalize sg =
     (case sg of (r, s) \<Rightarrow> if s > curve_order div 2 then (r, curve_order - s) else (r, s))"

text \<open>The function \<open>sign\<close> of the source.\<close>

definition sign :: "lib \<Rightarrow> bytes \<Rightarrow> bytes \<Rightarrow> bytes" where
  "sign L privKey sigHash =
     (let signature = secp256k1_sign L sigHash privKey;
          signature = signatureNormalize signature
      in signatureExport L signature)"

text \<open>
  One round of the loop that signs the inputs: the body for index \<open>i\<close>.  Reading
  \<open>inputs.utxos[i]\<close> beyond the list gives \<open>undefined\<close>, whose \<open>script\<close>
  cannot be read.
\<close>

definition sign_input :: "lib \<Rightarrow> wallet \<Rightarrow> utxo list \<Rightarrow> nat \<Rightarrow> transaction \<Rightarrow> error + transaction" where
  "sign_input L w utxos i t =
     (if i < length utxos then
        let privKey = privateKeys_bitcoin w;
            pubKey = publicKeys_bitcoin w;
            sigHashType = SIGHASH_ALL;
            input = ins t ! i;
            prevOut = utxos ! i;
            scriptPubKey = Buffer_hex L (utxo_script prevOut);
            sigHash = hashForSignature L t i scriptPubKey sigHashType;
            signature = sign L privKey sigHash;
            signature = concat_bytes signature (byte sigHashType)
        in Inr (t\<lparr>ins := (ins t)[i := input\<lparr>in_script := pubKeyHashInput L signature pubKey\<rparr>]\<rparr>)
      else Inl TypeError)"

function sign_inputs :: "lib \<Rightarrow> wallet \<Rightarrow> utxo list \<Rightarrow> nat \<Rightarrow> transaction \<Rightarrow> error + transaction" where
  "sign_inputs L w utxos i t =
     (if i < length (ins t) then
        (case sign_input L w utxos i t of
           Inl e \<Rightarrow> Inl e
         | Inr t' \<Rightarrow> sign_inputs L w utxos (i + 1) t')
      else Inr t)"
  by pat_completeness auto
termination
  by (relation "measure (\<lambda>(L, w, utxos, i, t). length (ins t) - i)")
     (auto simp: sign_input_def Let_def split: if_splits)

declare sign_inputs.simps [simp del]

section \<open>Building the final transaction\<close>

text \<open>The first loop of \<open>createFinalTx\<close>: the sum of the values.\<close>

definition inputAmount :: "utxo list \<Rightarrow> int" where
  "inputAmount inputs = foldl (\<lambda>amount input. amount + utxo_value input) 0 inputs"

text \<open>The second loop: one input for each unspent output, in the order given.\<close>

definition addInputs :: "lib \<Rightarrow> transaction \<Rightarrow> utxo list \<Rightarrow> transaction" where
  "addInputs L t utxos =
     foldl (\<lambda>t output. addInput t (Buffer_hex L (tx_hash output)) (tx_output_n output)) t utxos"

text \<open>The transaction as it stands when its length is taken: inputs and both outputs.\<close>

definition draftTx :: "lib \<Rightarrow> wallet \<Rightarrow> utxo list \<Rightarrow> transaction" where
  "draftTx L w utxos =
     (let t = addInputs L new_Transaction utxos;
          payToExodus = toOutputScript L EXODUS_ADDRESS;
          t = addOutput t payToExodus (num (inputAmount utxos));
          cosmosAddress = Buffer_hex L (addresses_cosmos w);
          specifyCosmosAddress = pubKeyHashOutput L cosmosAddress
      in addOutput t specifyCosmosAddress (num MINIMUM_OUTPUT))"

text \<open>The assignment \<open>tx.outs[0].value -= feeAmount\<close>.\<close>

definition deductFee :: "transaction \<Rightarrow> jsnum \<Rightarrow> transaction" where
  "deductFee t fee =
     t\<lparr>outs := (outs t)[0 := (outs t ! 0)\<lparr>out_value := js_sub (out_value (outs t ! 0)) fee\<rparr>]\<rparr>"

definition createFinalTx :: "lib \<Rightarrow> bool \<Rightarrow> wallet \<Rightarrow> utxo list \<Rightarrow> jsval \<Rightarrow> error + build_result" where
  "createFinalTx L DEV w inputs feeRate =
     (let amount = inputAmount inputs in
      if amount < MINIMUM_AMOUNT DEV then
        Inl (InsufficientAggregateAmount (MINIMUM_AMOUNT DEV) amount)
      else if \<not> truthy feeRate \<or> js_lt (toNumber feeRate) (Fin 0) then
        Inl InvalidFeeRate
      else
        let t = draftTx L w inputs;
            fee = js_mul (num (int (byteLength t))) (toNumber feeRate)
        in if js_lt (js_sub (out_value (outs t ! 0)) fee) (num MINIMUM_OUTPUT) then
             Inl (FeeExceedsAvailableFunds (byteLength t) feeRate fee (out_value (outs t ! 0)))
           else
             (case sign_inputs L w inputs 0 (deductFee t fee) of
                Inl e \<Rightarrow> Inl e
              | Inr t' \<Rightarrow>
                  Inr \<lparr>tx = t', paidAmount = amount, feeAmount = fee,
                       atomAmount = js_div (js_mul (out_value (outs t' ! 0)) (num ATOMS_PER_BTC))
                                           (Fin 100000000)\<rparr>))"

text \<open>The unsigned input that \<open>addInput\<close> makes for an unspent output.\<close>

definition unsignedInput :: "lib \<Rightarrow> utxo \<Rightarrow> txin" where
  "unsignedInput L output =
     \<lparr>in_hash = Buffer_hex L (tx_hash output), in_index = tx_output_n output,
      in_script = [], in_sequence = 4294967295\<rparr>"

section \<open>The address codec\<close>

text \<open>
  Modelled from the spec: \<open>bs58check\<close> is a library that is not under \<open>src/\<close>.
  The specification: "append a 4-byte checksum derived from double-applying the first
  hash function to the versioned payload; encode the whole using a base-58 alphabet
  with leading-zero-byte preservation.  Decoding is the inverse and must validate the
  checksum, failing with an InvalidChecksum error on mismatch."  The bytes are read as
  a number in base 256, most significant byte first, and written in base 58; each
  leading zero byte becomes one leading \<open>1\<close>, the digit zero of the alphabet.
\<close>

definition ALPHABET :: string where
  "ALPHABET = ''123456789ABCDEFGHJKLMNPQRSTUVWXYZabcdefghijkmnopqrstuvwxyz''"

text \<open>
  The value of a list of digits in base \<open>b\<close>, most significant digit first, and the
  digits of a number, without leading zeros (none at all for zero).
\<close>

definition from_digits :: "nat \<Rightarrow> nat list \<Rightarrow> nat" where
  "from_digits b ds = foldl (\<lambda>acc d. acc * b + d) 0 ds"

function to_digits :: "nat \<Rightarrow> nat \<Rightarrow> nat list" where
  "to_digits b n = (if n = 0 \<or> b < 2 then [] else to_digits b (n div b) @ [n mod b])"
  by pat_completeness auto
termination
  by (relation "measure (\<lambda>(b, n). n)") auto

declare to_digits.simps [simp del]

text \<open>The position of a character in the alphabet, if it occurs.\<close>

fun index_of :: "'a \<Rightarrow> 'a list \<Rightarrow> nat option" where
  "index_of x [] = None"
| "index_of x (y # ys) = (if x = y then Some 0 else map_option Suc (index_of x ys))"

fun base58_indices :: "string \<Rightarrow> nat list option" where
  "base58_indices [] = Some []"
| "base58_indices (c # cs) =
     (case index_of c ALPHABET of
        None \<Rightarrow> None
      | Some d \<Rightarrow> map_option ((#) d) (base58_indices cs))"

definition base58_encode :: "bytes \<Rightarrow> string" where
  "base58_encode bs =
     (let zeros = length (takeWhile (\<lambda>x. x = 0) bs);
          n = from_digits 256 (map unat bs)
      in replicate zeros (ALPHABET ! 0) @ map ((!) ALPHABET) (to_digits 58 n))"

definition base58_decode :: "string \<Rightarrow> bytes option" where
  "base58_decode s =
     (case base58_indices s of
        None \<Rightarrow> None
      | Some ds \<Rightarrow>
          let zeros = length (takeWhile (\<lambda>c. c = ALPHABET ! 0) s);
              n = from_digits 58 ds
          in Some (replicate zeros 0 @ map word_of_nat (to_digits 256 n)))"

text \<open>
  Modelled from the spec: the checksum and its validation.  A string with a character
  outside the alphabet is not the encoding of any bytes; the specification names only
  the failure of the checksum.
\<close>

datatype decode_error = NonBase58Character | InvalidChecksum

definition checksum :: "lib \<Rightarrow> bytes \<Rightarrow> bytes" where
  "checksum L payload = take 4 (sha2 L (sha2 L payload))"

definition bs58check_encode :: "lib \<Rightarrow> bytes \<Rightarrow> string" where
  "bs58check_encode L payload = base58_encode (payload @ checksum L payload)"

definition bs58check_decode :: "lib \<Rightarrow> string \<Rightarrow> decode_error + bytes" where
  "bs58check_decode L s =
     (case base58_decode s of
        None \<Rightarrow> Inl NonBase58Character
      | Some bs \<Rightarrow>
          let payload = take (length bs - 4) bs;
              given = drop (length bs - 4) bs
          in if given = checksum L payload then Inr payload else Inl InvalidChecksum)"

text \<open>The function \<open>getAddress\<close> of the source.\<close>

definition getAddress :: "lib \<Rightarrow> bytes \<Rightarrow> string" where
  "getAddress L pub =
     (let pubkeyHash = ripemd160 L (sha2 L pub);
          payload = concat_bytes (byte 0) pubkeyHash
      in bs58check_encode L payload)"

section \<open>The arithmetic of doubles\<close>

text \<open>
  The operations \<open>js_add\<close>, \<open>js_mul\<close> and \<open>js_div\<close> above compute with exact
  rationals.  The source computes with IEEE doubles: every operation returns the double
  nearest to the exact result, ties going to the even significand, and a result of
  magnitude \<open>2 ^ 1024\<close> or more is infinite.  \<open>round_double\<close> is this rounding.
  A positive number is scaled by powers of two until it lies between \<open>2 ^ 52\<close> and
  \<open>2 ^ 53\<close> (or the exponent reaches its least value, \<open>-1074\<close>), rounded to a
  whole number and scaled back.
\<close>

definition pow2 :: "int \<Rightarrow> rat" where
  "pow2 e = (if 0 \<le> e then 2 ^ nat e else 1 / 2 ^ nat (- e))"

function scale_up :: "rat \<Rightarrow> int \<Rightarrow> rat \<times> int" where
  "scale_up y e = (if 2 ^ 53 \<le> y \<and> e < 972 then scale_up (y / 2) (e + 1) else (y, e))"
  by pat_completeness auto
termination
  by (relation "measure (\<lambda>(y, e). nat (972 - e))") auto

function scale_down :: "rat \<Rightarrow> int \<Rightarrow> rat \<times> int" where
  "scale_down y e = (if y < 2 ^ 52 \<and> - 1074 < e then scale_down (y * 2) (e - 1) else (y, e))"
  by pat_completeness auto
termination
  by (relation "measure (\<lambda>(y, e). nat (e + 1074))") auto

declare scale_up.simps [simp del]

declare scale_down.simps [simp del]

definition round_half_even :: "rat \<Rightarrow> int" where
  "round_half_even y =
     (let n = \<lfloor>y\<rfloor>; d = y - of_int n
      in if d < 1 / 2 then n else if 1 / 2 < d then n + 1 else if even n then n else n + 1)"

definition round_pos :: "rat \<Rightarrow> jsnum" where
  "round_pos x =
     (case scale_up x 0 of (y, e) \<Rightarrow>
        case scale_down y e of (y', e') \<Rightarrow>
          let r = of_int (round_half_even y') * pow2 e'
          in if 2 ^ 1024 \<le> r then PosInf else Fin r)"

definition round_double :: "rat \<Rightarrow> jsnum" where
  "round_double x =
     (if x = 0 then Fin 0 else if 0 < x then round_pos x else js_neg (round_pos (- x)))"

text \<open>
  The operations of the source on doubles: the exact result, rounded.  Where an operand
  is \<open>NaN\<close> or infinite they are the operations above.
\<close>

fun dbl_add :: "jsnum \<Rightarrow> jsnum \<Rightarrow> jsnum" where
  "dbl_add (Fin a) (Fin b) = round_double (a + b)"
| "dbl_add x y = js_add x y"

definition dbl_sub :: "jsnum \<Rightarrow> jsnum \<Rightarrow> jsnum" where
  "dbl_sub x y = dbl_add x (js_neg y)"

fun dbl_mul :: "jsnum \<Rightarrow> jsnum \<Rightarrow> jsnum" where
  "dbl_mul (Fin a) (Fin b) = round_double (a * b)"
| "dbl_mul x y = js_mul x y"

fun dbl_div :: "jsnum \<Rightarrow> jsnum \<Rightarrow> jsnum" where
  "dbl_div (Fin a) (Fin b) = (if b = 0 then js_div (Fin a) (Fin b) else round_double (a / b))"
| "dbl_div x y = js_div x y"

text \<open>
  The function \<open>createFinalTx\<close> of the source once more, with every operation on
  numbers rounded as the source rounds it.  It differs from \<open>createFinalTx\<close> above
  in the product of line 112, the difference of lines 113 and 120 and the product and
  quotient of line 137, and in nothing else.
\<close>

definition deductFee_double :: "transaction \<Rightarrow> jsnum \<Rightarrow> transaction" where
  "deductFee_double t fee =
     t\<lparr>outs := (outs t)[0 := (outs t ! 0)\<lparr>out_value := dbl_sub (out_value (outs t ! 0)) fee\<rparr>]\<rparr>"

definition createFinalTx_double :: "lib \<Rightarrow> bool \<Rightarrow> wallet \<Rightarrow> utxo list \<Rightarrow> jsval \<Rightarrow> error + build_result" where
  "createFinalTx_double L DEV w inputs feeRate =
     (let amount = inputAmount inputs in
      if amount < MINIMUM_AMOUNT DEV then
        Inl (InsufficientAggregateAmount (MINIMUM_AMOUNT DEV) amount)
      else if \<not> truthy feeRate \<or> js_lt (toNumber feeRate) (Fin 0) then
        Inl InvalidFeeRate
      else
        let t = draftTx L w inputs;
            fee = dbl_mul (num (int (byteLength t))) (toNumber feeRate)
        in if js_lt (dbl_sub (out_value (outs t ! 0)) fee) (num MINIMUM_OUTPUT) then
             Inl (FeeExceedsAvailableFunds (byteLength t) feeRate fee (out_value (outs t ! 0)))
           else
             (case sign_inputs L w inputs 0 (deductFee_double t fee) of
                Inl e \<Rightarrow> Inl e
              | Inr t' \<Rightarrow>
                  Inr \<lparr>tx = t', paidAmount = amount, feeAmount = fee,
                       atomAmount = dbl_div (dbl_mul (out_value (outs t' ! 0)) (num ATOMS_PER_BTC))
                                           (Fin 100000000)\<rparr>))"

text \<open>
  The unlocking script that the loop computes for index \<open>i\<close> when the transaction
  is in state \<open>t\<close>: the right-hand side of the assignment to \<open>input.script\<close>.
\<close>

definition scriptSig :: "lib \<Rightarrow> wallet \<Rightarrow> utxo \<Rightarrow> nat \<Rightarrow> transaction \<Rightarrow> bytes" where
  "scriptSig L w prevOut i t =
     pubKeyHashInput L
       (concat_bytes
          (sign L (privateKeys_bitcoin w)
             (hashForSignature L t i (Buffer_hex L (utxo_script prevOut)) SIGHASH_ALL))
          (byte SIGHASH_ALL))
       (publicKeys_bitcoin w)"

section \<open>A sample library and sample arguments\<close>

text \<open>
  Concrete values for the parameters, to run the model on: a hexadecimal decoder, the
  pay-to-public-key-hash script templates, and simple stand-ins for the hash functions
  and the signer.
\<close>

fun hexDigit :: "char \<Rightarrow> nat option" where
  "hexDigit c =
     (let k = (of_char c :: nat) in
      if 48 \<le> k \<and> k \<le> 57 then Some (k - 48)
      else if 97 \<le> k \<and> k \<le> 102 then Some (k - 87)
      else if 65 \<le> k \<and> k \<le> 70 then Some (k - 55)
      else None)"

fun hexBytes :: "string \<Rightarrow> bytes" where
  "hexBytes (a # b # rest) =
     (case (hexDigit a, hexDigit b) of
        (Some x, Some y) \<Rightarrow> word_of_nat (16 * x + y) # hexBytes rest
      | _ \<Rightarrow> [])"
| "hexBytes rest = []"

definition p2pkh :: "bytes \<Rightarrow> bytes" where
  "p2pkh h = [118, 169, 20] @ h @ [136, 172]"

definition demoLib :: lib where
  "demoLib =
     \<lparr>sha2 = (\<lambda>b. replicate 32 (word_of_nat (length b))),
      ripemd160 = (\<lambda>b. replicate 20 (word_of_nat (length b))),
      Buffer_hex = hexBytes,
      toOutputScript = (\<lambda>a. p2pkh (replicate 20 (word_of_nat (length a)))),
      pubKeyHashOutput = p2pkh,
      pubKeyHashInput = (\<lambda>sg pub. word_of_nat (length sg) # sg @ word_of_nat (length pub) # pub),
      hashForSignature = (\<lambda>t i s h. replicate 32 (word_of_nat (byteLength t + i + length s + h))),
      secp256k1_sign = (\<lambda>h k. (1 + length k, curve_order - 1 - length h)),
      signatureExport = (\<lambda>sg. [word_of_nat (fst sg), word_of_nat (snd sg)])\<rparr>"

definition demoWallet :: wallet where
  "demoWallet =
     \<lparr>addresses_cosmos = ''000102030405060708090a0b0c0d0e0f10111213'',
      privateKeys_bitcoin = replicate 32 7,
      publicKeys_bitcoin = 2 # replicate 32 9\<rparr>"

definition demoInputs :: "utxo list" where
  "demoInputs =
     [\<lparr>tx_hash = ''aa01'', tx_output_n = 0, utxo_value = 700000, utxo_script = ''76a9''\<rparr>,
      \<lparr>tx_hash = ''bb02'', tx_output_n = 3, utxo_value = 400000, utxo_script = ''88ac''\<rparr>]"


section \<open>Properties of the loops\<close>

lemma length_ins_sign_input:
  "sign_input L w utxos i t = Inr t' \<Longrightarrow> length (ins t') = length (ins t)"
  by (auto simp: sign_input_def Let_def split: if_splits)

lemma foldl_add_utxo:
  "foldl (\<lambda>amount input. amount + utxo_value input) a xs = a + sum_list (map utxo_value xs)"
  by (induction xs arbitrary: a) auto

lemma inputAmount_sum: "inputAmount inputs = sum_list (map utxo_value inputs)"
  by (simp add: inputAmount_def foldl_add_utxo)

lemma addInputs_eq:
  "addInputs L t utxos = t\<lparr>ins := ins t @ map (unsignedInput L) utxos\<rparr>"
  unfolding addInputs_def
  by (induction utxos arbitrary: t) (simp_all add: addInput_def unsignedInput_def)

lemma ins_draftTx: "ins (draftTx L w utxos) = map (unsignedInput L) utxos"
  by (simp add: draftTx_def Let_def addInputs_eq addOutput_def new_Transaction_def)

lemma outs_draftTx:
  "outs (draftTx L w utxos) =
     [\<lparr>out_script = toOutputScript L EXODUS_ADDRESS, out_value = num (inputAmount utxos)\<rparr>,
      \<lparr>out_script = pubKeyHashOutput L (Buffer_hex L (addresses_cosmos w)),
       out_value = num MINIMUM_OUTPUT\<rparr>]"
  by (simp add: draftTx_def Let_def addInputs_eq addOutput_def new_Transaction_def)

lemma byteLength_pos: "0 < byteLength t"
  by (simp add: byteLength_def)

lemma sign_inputs_error: "sign_inputs L w utxos i t = Inl e \<Longrightarrow> e = TypeError"
proof (induction L w utxos i t rule: sign_inputs.induct)
  case (1 L w utxos i t)
  show ?case
  proof (cases "i < length (ins t)")
    case False
    with "1.prems" show ?thesis by (simp add: sign_inputs.simps)
  next
    case True
    show ?thesis
    proof (cases "sign_input L w utxos i t")
      case (Inl e')
      with True "1.prems" show ?thesis
        by (auto simp: sign_inputs.simps [of L w utxos i t] sign_input_def Let_def split: if_splits)
    next
      case (Inr t')
      with True "1.prems" "1.IH" show ?thesis
        by (simp add: sign_inputs.simps [of L w utxos i t])
    qed
  qed
qed

lemma sign_inputs_returns:
  "length (ins t) \<le> length utxos \<Longrightarrow> \<exists>t'. sign_inputs L w utxos i t = Inr t'"
proof (induction L w utxos i t rule: sign_inputs.induct)
  case (1 L w utxos i t)
  show ?case
  proof (cases "i < length (ins t)")
    case False
    then show ?thesis by (simp add: sign_inputs.simps)
  next
    case True
    with "1.prems" have "i < length utxos" by simp
    then obtain t' where t': "sign_input L w utxos i t = Inr t'"
      by (simp add: sign_input_def Let_def)
    with "1.prems" have "length (ins t') \<le> length utxos"
      by (simp add: length_ins_sign_input)
    with "1.IH" [OF True t'] t' True show ?thesis
      by (simp add: sign_inputs.simps [of L w utxos i t])
  qed
qed

lemma map_update_same: "(map f xs)[i := f (xs ! i)] = map f xs"
proof (cases "i < length xs")
  case True
  then have "(map f xs)[i := map f xs ! i] = map f xs" by (simp only: list_update_id)
  with True show ?thesis by simp
next
  case False
  then show ?thesis by (simp add: list_update_beyond)
qed

lemma sign_input_frame:
  "sign_input L w utxos i t = Inr t' \<Longrightarrow>
     outs t' = outs t \<and> version t' = version t \<and> locktime t' = locktime t \<and>
     map in_hash (ins t') = map in_hash (ins t) \<and> map in_index (ins t') = map in_index (ins t)"
  by (auto simp: sign_input_def Let_def map_update map_update_same split: if_splits)

lemma sign_inputs_frame:
  "sign_inputs L w utxos i t = Inr t' \<Longrightarrow>
     outs t' = outs t \<and> version t' = version t \<and> locktime t' = locktime t \<and>
     map in_hash (ins t') = map in_hash (ins t) \<and> map in_index (ins t') = map in_index (ins t)"
proof (induction L w utxos i t rule: sign_inputs.induct)
  case (1 L w utxos i t)
  show ?case
  proof (cases "i < length (ins t)")
    case False
    with "1.prems" show ?thesis by (simp add: sign_inputs.simps)
  next
    case True
    with "1.prems" obtain t1 where t1: "sign_input L w utxos i t = Inr t1"
      and rest: "sign_inputs L w utxos (i + 1) t1 = Inr t'"
      by (auto simp: sign_inputs.simps [of L w utxos i t] split: sum.splits)
    from "1.IH" [OF True t1 rest] sign_input_frame [OF t1] show ?thesis by simp
  qed
qed

section \<open>Successful builds\<close>

lemma createFinalTx_success:
  assumes "createFinalTx L DEV w inputs feeRate = Inr res"
  shows "\<exists>r. feeRate = Number (Fin r) \<and> 0 < r \<and>
           MINIMUM_AMOUNT DEV \<le> inputAmount inputs \<and>
           feeAmount res = Fin (of_nat (byteLength (draftTx L w inputs)) * r) \<and>
           of_int MINIMUM_OUTPUT \<le> of_int (inputAmount inputs) - of_nat (byteLength (draftTx L w inputs)) * r \<and>
           sign_inputs L w inputs 0 (deductFee (draftTx L w inputs) (feeAmount res)) = Inr (tx res) \<and>
           paidAmount res = inputAmount inputs \<and>
           atomAmount res =
             js_div (js_mul (out_value (outs (tx res) ! 0)) (num ATOMS_PER_BTC)) (Fin 100000000)"
proof -
  let ?t = "draftTx L w inputs"
  have bl: "0 < byteLength ?t" by (rule byteLength_pos)
  from assms have amt: "MINIMUM_AMOUNT DEV \<le> inputAmount inputs"
    and ok: "truthy feeRate" "\<not> js_lt (toNumber feeRate) (Fin 0)"
    by (auto simp: createFinalTx_def Let_def split: if_splits)
  show ?thesis
  proof (cases feeRate)
    case Undefined
    with ok show ?thesis by simp
  next
    case Null
    with ok show ?thesis by simp
  next
    case (Number x)
    show ?thesis
    proof (cases x)
      case NaN
      with ok Number show ?thesis by simp
    next
      case NegInf
      with ok Number show ?thesis by simp
    next
      case PosInf
      with bl have "js_mul (num (int (byteLength ?t))) (toNumber feeRate) = PosInf"
        using Number by (simp add: num_def js_inf_def)
      with assms amt ok show ?thesis
        by (simp add: createFinalTx_def Let_def outs_draftTx num_def js_sub_def)
    next
      case (Fin r)
      with ok Number have r: "0 < r" by simp
      have fee: "js_mul (num (int (byteLength ?t))) (toNumber feeRate) = Fin (of_nat (byteLength ?t) * r)"
        using Number Fin by (simp add: num_def)
      from assms amt ok show ?thesis
        unfolding createFinalTx_def Let_def fee
        using Number Fin r
        by (auto simp: outs_draftTx num_def js_sub_def split: if_splits sum.splits)
    qed
  qed
qed

lemma createFinalTx_returns:
  assumes "MINIMUM_AMOUNT DEV \<le> inputAmount inputs" and "0 < r"
    and "of_int MINIMUM_OUTPUT \<le> of_int (inputAmount inputs) - of_nat (byteLength (draftTx L w inputs)) * r"
  shows "\<exists>res. createFinalTx L DEV w inputs (Number (Fin r)) = Inr res"
proof -
  let ?t = "draftTx L w inputs"
  let ?fee = "Fin (of_nat (byteLength ?t) * r)"
  have "length (ins (deductFee ?t ?fee)) \<le> length inputs"
    by (simp add: deductFee_def ins_draftTx)
  then obtain t' where "sign_inputs L w inputs 0 (deductFee ?t ?fee) = Inr t'"
    using sign_inputs_returns by blast
  with assms show ?thesis
    by (simp add: createFinalTx_def Let_def outs_draftTx num_def js_sub_def)
qed



lemma byteLength_demo: "byteLength (draftTx demoLib demoWallet demoInputs) = 160"
  by (simp add: byteLength_def ins_draftTx outs_draftTx demoInputs_def demoLib_def
      demoWallet_def p2pkh_def unsignedInput_def varSliceSize_def varIntSize_def)

lemma inputAmount_demo: "inputAmount demoInputs = 1100000"
  by (simp add: inputAmount_sum demoInputs_def)

lemma demo_returns:
  "\<exists>res. createFinalTx demoLib False demoWallet demoInputs (Number (Fin 50)) = Inr res"
  by (rule createFinalTx_returns)
     (simp_all add: byteLength_demo inputAmount_demo MINIMUM_AMOUNT_def MINIMUM_OUTPUT_def)

section \<open>The claims about the builder\<close>



text \<open>
  Claim C4.  When the values sum to less than the minimum amount (60000 in development,
  1000000 otherwise), also for the empty list, the build fails with
  \<open>InsufficientAggregateAmount\<close> carrying the minimum and the actual sum, whatever
  the library, the wallet and the fee rate are; when the sum reaches the minimum, the
  build does not fail with this error.
\<close>

theorem C4_aggregate_threshold:
  "(sum_list (map utxo_value inputs) < MINIMUM_AMOUNT DEV \<longrightarrow>
      createFinalTx L DEV w inputs feeRate =
        Inl (InsufficientAggregateAmount (MINIMUM_AMOUNT DEV) (sum_list (map utxo_value inputs)))) \<and>
   (MINIMUM_AMOUNT DEV \<le> sum_list (map utxo_value inputs) \<longrightarrow>
      (\<forall>m a. createFinalTx L DEV w inputs feeRate \<noteq> Inl (InsufficientAggregateAmount m a))) \<and>
   createFinalTx L DEV w [] feeRate = Inl (InsufficientAggregateAmount (MINIMUM_AMOUNT DEV) 0) \<and>
   MINIMUM_AMOUNT True = 60000 \<and> MINIMUM_AMOUNT False = 1000000"
proof -
  have below: "createFinalTx L DEV w xs feeRate =
      Inl (InsufficientAggregateAmount (MINIMUM_AMOUNT DEV) (sum_list (map utxo_value xs)))"
    if "sum_list (map utxo_value xs) < MINIMUM_AMOUNT DEV" for xs
    using that by (simp add: createFinalTx_def Let_def inputAmount_sum)
  have above: "createFinalTx L DEV w inputs feeRate \<noteq> Inl (InsufficientAggregateAmount m a)"
    if "MINIMUM_AMOUNT DEV \<le> sum_list (map utxo_value inputs)" for m a
    using that
    by (auto simp: createFinalTx_def Let_def inputAmount_sum split: if_splits sum.splits
        dest: sign_inputs_error)
  have empty: "createFinalTx L DEV w [] feeRate = Inl (InsufficientAggregateAmount (MINIMUM_AMOUNT DEV) 0)"
    using below [of "[]"] by (simp add: MINIMUM_AMOUNT_def)
  from below [of inputs] above empty show ?thesis
    by (simp add: MINIMUM_AMOUNT_def)
qed

theorem C4_aggregate_threshold_witness:
  "sum_list (map utxo_value [\<lparr>tx_hash = ''aa01'', tx_output_n = 0, utxo_value = 500000, utxo_script = ''76a9''\<rparr>])
     < MINIMUM_AMOUNT False \<and>
   createFinalTx demoLib False demoWallet
     [\<lparr>tx_hash = ''aa01'', tx_output_n = 0, utxo_value = 500000, utxo_script = ''76a9''\<rparr>]
     (Number (Fin 50)) = Inl (InsufficientAggregateAmount 1000000 500000) \<and>
   MINIMUM_AMOUNT False \<le> sum_list (map utxo_value demoInputs) \<and>
   createFinalTx demoLib False demoWallet demoInputs (Number (Fin 50))
     \<noteq> Inl (InsufficientAggregateAmount 1000000 1100000)"
  using C4_aggregate_threshold [of "[\<lparr>tx_hash = ''aa01'', tx_output_n = 0, utxo_value = 500000, utxo_script = ''76a9''\<rparr>]"
      False demoLib demoWallet "Number (Fin 50)"]
    C4_aggregate_threshold [of demoInputs False demoLib demoWallet "Number (Fin 50)"]
  by (simp add: MINIMUM_AMOUNT_def demoInputs_def)

text \<open>
  Claim C5.  Once the check of the sum has passed, the build fails with
  \<open>InvalidFeeRate\<close> if and only if the fee rate is missing or is not a number
  greater than zero; a rate of zero, a negative rate and \<open>NaN\<close> are rejected,
  whatever the library and the wallet are.
\<close>

theorem C5_fee_rate_guard:
  assumes "MINIMUM_AMOUNT DEV \<le> sum_list (map utxo_value inputs)"
  shows "((createFinalTx L DEV w inputs feeRate = Inl InvalidFeeRate) =
            (\<not> ((\<exists>r. 0 < r \<and> feeRate = Number (Fin r)) \<or> feeRate = Number PosInf))) \<and>
         createFinalTx L DEV w inputs Undefined = Inl InvalidFeeRate \<and>
         createFinalTx L DEV w inputs (Number NaN) = Inl InvalidFeeRate \<and>
         createFinalTx L DEV w inputs (Number (Fin 0)) = Inl InvalidFeeRate \<and>
         (r < 0 \<longrightarrow> createFinalTx L DEV w inputs (Number (Fin r)) = Inl InvalidFeeRate)"
proof -
  have guard: "(\<not> truthy v \<or> js_lt (toNumber v) (Fin 0)) =
               (\<not> ((\<exists>r. 0 < r \<and> v = Number (Fin r)) \<or> v = Number PosInf))" for v
  proof (cases v)
    case (Number x)
    then show ?thesis by (cases x) auto
  qed simp_all
  have rejected: "createFinalTx L DEV w inputs v = Inl InvalidFeeRate"
    if "\<not> truthy v \<or> js_lt (toNumber v) (Fin 0)" for v
    using that assms by (auto simp: createFinalTx_def Let_def inputAmount_sum)
  have accepted: "createFinalTx L DEV w inputs v \<noteq> Inl InvalidFeeRate"
    if "\<not> (\<not> truthy v \<or> js_lt (toNumber v) (Fin 0))" for v
    using that assms
    by (auto simp: createFinalTx_def Let_def inputAmount_sum split: sum.splits
        dest: sign_inputs_error)
  from rejected accepted guard
  have "(createFinalTx L DEV w inputs feeRate = Inl InvalidFeeRate) =
           (\<not> ((\<exists>r. 0 < r \<and> feeRate = Number (Fin r)) \<or> feeRate = Number PosInf))"
    by blast
  moreover have "createFinalTx L DEV w inputs Undefined = Inl InvalidFeeRate"
    by (rule rejected) simp
  moreover have "createFinalTx L DEV w inputs (Number NaN) = Inl InvalidFeeRate"
    by (rule rejected) simp
  moreover have "createFinalTx L DEV w inputs (Number (Fin 0)) = Inl InvalidFeeRate"
    by (rule rejected) simp
  moreover have "r < 0 \<longrightarrow> createFinalTx L DEV w inputs (Number (Fin r)) = Inl InvalidFeeRate"
    using rejected [of "Number (Fin r)"] by simp
  ultimately show ?thesis by simp
qed

theorem C5_fee_rate_guard_witness:
  "MINIMUM_AMOUNT False \<le> sum_list (map utxo_value demoInputs) \<and>
   createFinalTx demoLib False demoWallet demoInputs (Number (Fin (- 3))) = Inl InvalidFeeRate \<and>
   createFinalTx demoLib False demoWallet demoInputs (Number (Fin 0)) = Inl InvalidFeeRate \<and>
   createFinalTx demoLib False demoWallet demoInputs (Number (Fin 50)) \<noteq> Inl InvalidFeeRate"
proof -
  have a: "MINIMUM_AMOUNT False \<le> sum_list (map utxo_value demoInputs)"
    by (simp add: demoInputs_def MINIMUM_AMOUNT_def)
  from C5_fee_rate_guard [OF a, of demoLib demoWallet "Number (Fin 50)" "- 3"] a
  show ?thesis by simp
qed



section \<open>The claims about signing\<close>

lemma sign_input_eq:
  "sign_input L w utxos i t = Inr t' \<Longrightarrow>
     t' = t\<lparr>ins := (ins t)[i := (ins t ! i)\<lparr>in_script := scriptSig L w (utxos ! i) i t\<rparr>]\<rparr>"
  by (auto simp: sign_input_def scriptSig_def Let_def split: if_splits)

lemma sign_inputs_scripts:
  "sign_inputs L w utxos i t = Inr t' \<Longrightarrow>
     take i (ins t') = take i (ins t) \<and>
     (\<forall>j. i \<le> j \<and> j < length (ins t) \<longrightarrow>
        ins t' ! j =
          (ins t ! j)\<lparr>in_script :=
             scriptSig L w (utxos ! j) j (t\<lparr>ins := take j (ins t') @ drop j (ins t)\<rparr>)\<rparr>)"
proof (induction L w utxos i t rule: sign_inputs.induct)
  case (1 L w utxos i t)
  show ?case
  proof (cases "i < length (ins t)")
    case False
    with "1.prems" have "t' = t" by (simp add: sign_inputs.simps)
    with False show ?thesis by auto
  next
    case True
    with "1.prems" obtain t1 where t1: "sign_input L w utxos i t = Inr t1"
      and rest: "sign_inputs L w utxos (i + 1) t1 = Inr t'"
      by (auto simp: sign_inputs.simps [of L w utxos i t] split: sum.splits)
    let ?X = "(ins t ! i)\<lparr>in_script := scriptSig L w (utxos ! i) i t\<rparr>"
    from sign_input_eq [OF t1] have t1_eq: "t1 = t\<lparr>ins := (ins t)[i := ?X]\<rparr>" .
    then have ins1: "ins t1 = (ins t)[i := ?X]" by simp
    from "1.IH" [OF True t1 rest]
    have pre: "take (i + 1) (ins t') = take (i + 1) (ins t1)"
      and post: "\<And>j. i + 1 \<le> j \<Longrightarrow> j < length (ins t1) \<Longrightarrow>
        ins t' ! j =
          (ins t1 ! j)\<lparr>in_script :=
             scriptSig L w (utxos ! j) j (t1\<lparr>ins := take j (ins t') @ drop j (ins t1)\<rparr>)\<rparr>"
      by blast+
    have "take i (take (i + 1) (ins t')) = take i (take (i + 1) (ins t1))"
      using pre by simp
    then have a: "take i (ins t') = take i (ins t)"
      by (simp add: ins1)
    have "take (i + 1) (ins t') ! i = take (i + 1) (ins t1) ! i"
      using pre by simp
    then have at_i: "ins t' ! i = ?X"
      using True by (simp add: ins1)
    have same: "t\<lparr>ins := take i (ins t') @ drop i (ins t)\<rparr> = t"
      by (simp add: a)
    have b: "ins t' ! j =
          (ins t ! j)\<lparr>in_script :=
             scriptSig L w (utxos ! j) j (t\<lparr>ins := take j (ins t') @ drop j (ins t)\<rparr>)\<rparr>"
      if "i \<le> j" "j < length (ins t)" for j
    proof (cases "j = i")
      case True
      with at_i same show ?thesis by simp
    next
      case False
      with that have j: "i + 1 \<le> j" "j < length (ins t1)" by (simp_all add: ins1)
      from j have "drop j (ins t1) = drop j (ins t)" by (simp add: ins1)
      moreover from j have "ins t1 ! j = ins t ! j" by (simp add: ins1)
      moreover have "t1\<lparr>ins := Y\<rparr> = t\<lparr>ins := Y\<rparr>" for Y by (simp add: t1_eq)
      ultimately show ?thesis using post [OF j] by simp
    qed
    from a b show ?thesis by blast
  qed
qed

lemma final_tx:
  assumes "createFinalTx L DEV w inputs feeRate = Inr res"
  shows "tx res = (deductFee (draftTx L w inputs) (feeAmount res))\<lparr>ins := ins (tx res)\<rparr>"
proof -
  from createFinalTx_success [OF assms] obtain r where
    sg: "sign_inputs L w inputs 0 (deductFee (draftTx L w inputs) (feeAmount res)) = Inr (tx res)"
    by blast
  from sign_inputs_frame [OF sg] show ?thesis by simp
qed

lemma final_script:
  assumes "createFinalTx L DEV w inputs feeRate = Inr res" and "i < length inputs"
  shows "in_script (ins (tx res) ! i) =
           scriptSig L w (inputs ! i) i
             ((tx res)\<lparr>ins := take i (ins (tx res)) @ drop i (map (unsignedInput L) inputs)\<rparr>)"
proof -
  let ?d = "deductFee (draftTx L w inputs) (feeAmount res)"
  from createFinalTx_success [OF assms(1)] obtain r where
    sg: "sign_inputs L w inputs 0 ?d = Inr (tx res)"
    by blast
  have insd: "ins ?d = map (unsignedInput L) inputs"
    by (simp add: deductFee_def ins_draftTx)
  from sign_inputs_scripts [OF sg] assms(2) insd
  have "ins (tx res) ! i =
          (ins ?d ! i)\<lparr>in_script :=
             scriptSig L w (inputs ! i) i (?d\<lparr>ins := take i (ins (tx res)) @ drop i (ins ?d)\<rparr>)\<rparr>"
    by simp
  moreover have "?d\<lparr>ins := Y\<rparr> = (tx res)\<lparr>ins := Y\<rparr>" for Y
    using arg_cong [OF final_tx [OF assms(1)], of "\<lambda>t. t\<lparr>ins := Y\<rparr>"] by simp
  ultimately show ?thesis by (simp add: insd)
qed

lemma signatureNormalize_low:
  "signatureNormalize (r0, s0) = (r, s) \<Longrightarrow>
     r = r0 \<and> s \<le> curve_order div 2 \<and>
     s = (if s0 > curve_order div 2 then curve_order - s0 else s0)"
  by (auto simp: signatureNormalize_def curve_order_def split: if_splits)



text \<open>
  Claim C7.  For every input signed by a successful build, the signature in its
  unlocking script has an \<open>s\<close> of at most half the curve order (an \<open>s\<close> above
  it is replaced by the curve order minus \<open>s\<close>), it is exported by the library and
  is followed by the one byte of the signature hash type.
\<close>

theorem C7_low_s_signature:
  assumes "createFinalTx L DEV w inputs feeRate = Inr res" and "i < length inputs"
  shows "\<exists>sigHash r0 s0 s.
           sigHash =
             hashForSignature L
               ((tx res)\<lparr>ins := take i (ins (tx res)) @ drop i (map (unsignedInput L) inputs)\<rparr>)
               i (Buffer_hex L (utxo_script (inputs ! i))) SIGHASH_ALL \<and>
           secp256k1_sign L sigHash (privateKeys_bitcoin w) = (r0, s0) \<and>
           s = (if s0 > curve_order div 2 then curve_order - s0 else s0) \<and>
           s \<le> curve_order div 2 \<and>
           in_script (ins (tx res) ! i) =
             pubKeyHashInput L (signatureExport L (r0, s) @ [1]) (publicKeys_bitcoin w)"
proof -
  let ?state = "(tx res)\<lparr>ins := take i (ins (tx res)) @ drop i (map (unsignedInput L) inputs)\<rparr>"
  let ?sigHash = "hashForSignature L ?state i (Buffer_hex L (utxo_script (inputs ! i))) SIGHASH_ALL"
  obtain r0 s0 where sg: "secp256k1_sign L ?sigHash (privateKeys_bitcoin w) = (r0, s0)"
    by (cases "secp256k1_sign L ?sigHash (privateKeys_bitcoin w)") simp
  obtain r s where n: "signatureNormalize (r0, s0) = (r, s)"
    by (cases "signatureNormalize (r0, s0)") simp
  from signatureNormalize_low [OF n] have low: "r = r0" "s \<le> curve_order div 2"
    "s = (if s0 > curve_order div 2 then curve_order - s0 else s0)" by simp_all
  from final_script [OF assms] sg n low(1)
  have "in_script (ins (tx res) ! i) =
             pubKeyHashInput L (signatureExport L (r0, s) @ [1]) (publicKeys_bitcoin w)"
    by (simp add: scriptSig_def sign_def Let_def concat_bytes_def byte_def SIGHASH_ALL_def)
  with sg low show ?thesis by blast
qed

theorem C7_low_s_signature_witness:
  "\<exists>res. createFinalTx demoLib False demoWallet demoInputs (Number (Fin 50)) = Inr res \<and>
     (0::nat) < length demoInputs \<and>
     in_script (ins (tx res) ! 0) = [3, 33, 33, 1, 33, 2] @ replicate 32 9"
proof -
  from demo_returns obtain res where
    res: "createFinalTx demoLib False demoWallet demoInputs (Number (Fin 50)) = Inr res"
    by blast
  have i: "(0::nat) < length demoInputs" by (simp add: demoInputs_def)
  from C7_low_s_signature [OF res i] obtain sigHash r0 s0 s where
    h: "sigHash =
             hashForSignature demoLib
               ((tx res)\<lparr>ins := take 0 (ins (tx res)) @ drop 0 (map (unsignedInput demoLib) demoInputs)\<rparr>)
               0 (Buffer_hex demoLib (utxo_script (demoInputs ! 0))) SIGHASH_ALL"
    and sg: "secp256k1_sign demoLib sigHash (privateKeys_bitcoin demoWallet) = (r0, s0)"
    and s: "s = (if s0 > curve_order div 2 then curve_order - s0 else s0)"
    and script: "in_script (ins (tx res) ! 0) =
             pubKeyHashInput demoLib (signatureExport demoLib (r0, s) @ [1])
               (publicKeys_bitcoin demoWallet)"
    by blast
  from h have "length sigHash = 32" by (simp add: demoLib_def)
  with sg have "r0 = 33" "s0 = curve_order - 33"
    by (simp_all add: demoLib_def demoWallet_def)
  with s have "s = 33" by (simp add: curve_order_def)
  with script \<open>r0 = 33\<close>
  have "in_script (ins (tx res) ! 0) = [3, 33, 33, 1, 33, 2] @ replicate 32 9"
    by (simp add: demoLib_def demoWallet_def)
  with res i show ?thesis by (intro exI [of _ res]) simp
qed

section \<open>The round trip of the address codec\<close>

lemma from_digits_snoc: "from_digits b (ds @ [d]) = from_digits b ds * b + d"
  by (simp add: from_digits_def)

lemma from_digits_Nil: "from_digits b [] = 0"
  by (simp add: from_digits_def)

lemma from_digits_zeros: "from_digits b (replicate z 0 @ ds) = from_digits b ds"
  unfolding from_digits_def by (induction z) simp_all

lemma from_to_digits: "2 \<le> b \<Longrightarrow> from_digits b (to_digits b n) = n"
proof (induction b n rule: to_digits.induct)
  case (1 b n)
  show ?case
  proof (cases "n = 0")
    case True
    then show ?thesis by (simp add: to_digits.simps from_digits_Nil)
  next
    case False
    with "1.prems" have "to_digits b n = to_digits b (n div b) @ [n mod b]"
      by (simp add: to_digits.simps [of b n])
    moreover from False "1.prems" "1.IH" have "from_digits b (to_digits b (n div b)) = n div b"
      by simp
    ultimately show ?thesis by (simp add: from_digits_snoc)
  qed
qed

lemma to_digits_bound: "2 \<le> b \<Longrightarrow> d \<in> set (to_digits b n) \<Longrightarrow> d < b"
proof (induction b n rule: to_digits.induct)
  case (1 b n)
  show ?case
  proof (cases "n = 0")
    case True
    with "1.prems" show ?thesis by (simp add: to_digits.simps)
  next
    case False
    with "1.prems" have "to_digits b n = to_digits b (n div b) @ [n mod b]"
      by (simp add: to_digits.simps [of b n])
    with "1.prems" "1.IH" False show ?thesis by auto
  qed
qed

lemma to_digits_0: "to_digits b 0 = []"
  by (simp add: to_digits.simps)

lemma to_digits_hd:
  "2 \<le> b \<Longrightarrow> 0 < n \<Longrightarrow> to_digits b n \<noteq> [] \<and> hd (to_digits b n) \<noteq> 0"
proof (induction b n rule: to_digits.induct)
  case (1 b n)
  from "1.prems" have eq: "to_digits b n = to_digits b (n div b) @ [n mod b]"
    by (simp add: to_digits.simps [of b n])
  show ?case
  proof (cases "n div b = 0")
    case True
    with "1.prems" have "n < b" by (simp add: div_eq_0_iff)
    with True "1.prems" eq show ?thesis by (simp add: to_digits_0)
  next
    case False
    with "1.prems" "1.IH" have "to_digits b (n div b) \<noteq> [] \<and> hd (to_digits b (n div b)) \<noteq> 0"
      by simp
    with eq show ?thesis by simp
  qed
qed

lemma from_digits_pos:
  "ds \<noteq> [] \<Longrightarrow> hd ds \<noteq> 0 \<Longrightarrow> 2 \<le> b \<Longrightarrow> 0 < from_digits b ds"
proof (induction ds rule: rev_induct)
  case Nil
  then show ?case by simp
next
  case (snoc d ds)
  show ?case
  proof (cases "ds = []")
    case True
    with snoc.prems show ?thesis by (simp add: from_digits_def)
  next
    case False
    with snoc have "0 < from_digits b ds" by simp
    with snoc.prems show ?thesis by (simp add: from_digits_snoc)
  qed
qed

lemma to_from_digits:
  "2 \<le> b \<Longrightarrow> \<forall>d \<in> set ds. d < b \<Longrightarrow> ds = [] \<or> hd ds \<noteq> 0 \<Longrightarrow>
     to_digits b (from_digits b ds) = ds"
proof (induction ds rule: rev_induct)
  case Nil
  then show ?case by (simp add: from_digits_Nil to_digits_0)
next
  case (snoc d ds)
  from snoc.prems have d: "d < b" by simp
  show ?case
  proof (cases "ds = []")
    case True
    with snoc.prems d have "0 < d" by simp
    with d snoc.prems True show ?thesis
      by (simp add: from_digits_def to_digits.simps [of b d] to_digits_0)
  next
    case False
    with snoc.prems have hd: "hd ds \<noteq> 0" by simp
    with False snoc.prems have pos: "0 < from_digits b ds" by (simp add: from_digits_pos)
    from False hd snoc have IH: "to_digits b (from_digits b ds) = ds" by simp
    let ?n = "from_digits b ds * b + d"
    from pos snoc.prems have "?n \<noteq> 0" by simp
    moreover from d have "?n div b = from_digits b ds" "?n mod b = d" by simp_all
    ultimately have "to_digits b ?n = to_digits b (from_digits b ds) @ [d]"
      using snoc.prems by (simp add: to_digits.simps [of b ?n])
    with IH show ?thesis by (simp add: from_digits_snoc)
  qed
qed

lemma index_of_nth:
  "distinct xs \<Longrightarrow> i < length xs \<Longrightarrow> index_of (xs ! i) xs = Some i"
proof (induction xs arbitrary: i)
  case Nil
  then show ?case by simp
next
  case (Cons x xs)
  show ?case
  proof (cases i)
    case 0
    then show ?thesis by simp
  next
    case (Suc j)
    with Cons.prems have "xs ! j \<in> set xs" by simp
    with Cons.prems have "xs ! j \<noteq> x" by auto
    with Suc Cons show ?thesis by simp
  qed
qed

lemma length_ALPHABET: "length ALPHABET = 58"
  by (simp add: ALPHABET_def)

lemma distinct_ALPHABET: "distinct ALPHABET"
  by (simp add: ALPHABET_def)

lemma base58_indices_map:
  "\<forall>d \<in> set ds. d < 58 \<Longrightarrow> base58_indices (map ((!) ALPHABET) ds) = Some ds"
  by (induction ds) (simp_all add: index_of_nth distinct_ALPHABET length_ALPHABET)

lemma takeWhile_replicate_append:
  "P a \<Longrightarrow> ys = [] \<or> \<not> P (hd ys) \<Longrightarrow> takeWhile P (replicate z a @ ys) = replicate z a"
  by (induction z) (cases ys; auto)+

lemma takeWhile_eq_replicate:
  "takeWhile (\<lambda>x. x = a) xs = replicate (length (takeWhile (\<lambda>x. x = a) xs)) a"
  by (induction xs) simp_all

lemma ALPHABET_nth_neq_0: "0 < d \<Longrightarrow> d < 58 \<Longrightarrow> ALPHABET ! d \<noteq> ALPHABET ! 0"
  using distinct_ALPHABET by (simp add: nth_eq_iff_index_eq length_ALPHABET)

lemma base58_decode_encode: "base58_decode (base58_encode bs) = Some bs"
proof -
  define z where "z = length (takeWhile (\<lambda>x. x = 0) bs)"
  define rest where "rest = dropWhile (\<lambda>x. x = 0) bs"
  define ds where "ds = map unat rest"
  define n where "n = from_digits 256 ds"
  define D where "D = to_digits 58 n"
  have zeros: "takeWhile (\<lambda>x. x = 0) bs = replicate z 0"
    unfolding z_def by (rule takeWhile_eq_replicate)
  have split: "bs = replicate z 0 @ rest"
    using takeWhile_dropWhile_id [of "\<lambda>x. x = 0" bs] by (simp add: zeros rest_def)
  have "map unat bs = replicate z 0 @ ds"
    by (subst split) (simp add: ds_def)
  then have value_bs: "from_digits 256 (map unat bs) = n"
    by (simp add: n_def from_digits_zeros)
  have enc: "base58_encode bs = map ((!) ALPHABET) (replicate z 0 @ D)"
    by (simp add: base58_encode_def Let_def value_bs z_def D_def)
  have D_bound: "\<forall>d \<in> set D. d < 58"
    by (auto simp: D_def dest: to_digits_bound [rotated])
  have D_hd: "D = [] \<or> (0 < hd D \<and> hd D < 58)"
  proof (cases "n = 0")
    case True
    then show ?thesis by (simp add: D_def to_digits_0)
  next
    case False
    then have "D \<noteq> [] \<and> hd D \<noteq> 0" unfolding D_def by (intro to_digits_hd) simp_all
    with D_bound show ?thesis by (cases D) auto
  qed
  have idx: "base58_indices (base58_encode bs) = Some (replicate z 0 @ D)"
    unfolding enc using D_bound by (intro base58_indices_map) auto
  have "map ((!) ALPHABET) D = [] \<or> \<not> (hd (map ((!) ALPHABET) D) = ALPHABET ! 0)"
    using D_hd by (cases D) (auto simp: ALPHABET_nth_neq_0)
  then have "takeWhile (\<lambda>c. c = ALPHABET ! 0) (replicate z (ALPHABET ! 0) @ map ((!) ALPHABET) D)
               = replicate z (ALPHABET ! 0)"
    by (intro takeWhile_replicate_append) simp_all
  then have lead: "length (takeWhile (\<lambda>c. c = ALPHABET ! 0) (base58_encode bs)) = z"
    by (simp add: enc)
  have value_D: "from_digits 58 (replicate z 0 @ D) = n"
    by (simp add: from_digits_zeros D_def from_to_digits)
  have ds_bound: "\<forall>d \<in> set ds. d < 256"
  proof
    fix d assume "d \<in> set ds"
    then obtain x :: "8 word" where "d = unat x" by (auto simp: ds_def)
    then show "d < 256" using unsigned_less [of x, where ?'a = nat] by simp
  qed
  have "rest = [] \<or> hd rest \<noteq> 0"
    unfolding rest_def using hd_dropWhile [of "\<lambda>x. x = 0" bs] by blast
  then have ds_hd: "ds = [] \<or> hd ds \<noteq> 0"
    by (cases rest) (auto simp: ds_def unat_eq_0)
  have "to_digits 256 n = ds"
    unfolding n_def using ds_bound ds_hd by (intro to_from_digits) simp_all
  then have "map word_of_nat (to_digits 256 n) = rest"
    by (simp add: ds_def comp_def)
  with idx lead value_D split show ?thesis
    by (simp add: base58_decode_def Let_def)
qed

text \<open>
  Claim C9.  Provided the hash function of the checksum returns at least four bytes (as
  SHA-256 does), decoding the address that \<open>getAddress\<close> returns for a public key
  succeeds and gives back the version byte \<open>0x00\<close> followed by the digest that
  \<open>getAddress\<close> embedded, the RIPEMD-160 of the SHA-256 of the key; decoding the
  encoding of a payload followed by four bytes that are not its checksum fails with
  \<open>InvalidChecksum\<close>.
\<close>

theorem C9_address_round_trip:
  assumes "\<forall>x. 4 \<le> length (sha2 L x)"
  shows "bs58check_decode L (getAddress L pub) = Inr (0 # ripemd160 L (sha2 L pub)) \<and>
         (length given = 4 \<and> given \<noteq> checksum L payload \<longrightarrow>
            bs58check_decode L (base58_encode (payload @ given)) = Inl InvalidChecksum)"
proof -
  have len: "length (checksum L p) = 4" for p
    using assms by (simp add: checksum_def)
  have ok: "bs58check_decode L (bs58check_encode L p) = Inr p" for p
    by (simp add: bs58check_decode_def bs58check_encode_def base58_decode_encode Let_def len)
  have "getAddress L pub = bs58check_encode L (0 # ripemd160 L (sha2 L pub))"
    by (simp add: getAddress_def Let_def concat_bytes_def byte_def)
  with ok have good: "bs58check_decode L (getAddress L pub) = Inr (0 # ripemd160 L (sha2 L pub))"
    by simp
  have bad: "bs58check_decode L (base58_encode (payload @ given)) = Inl InvalidChecksum"
    if "length given = 4" "given \<noteq> checksum L payload"
    using that by (simp add: bs58check_decode_def base58_decode_encode Let_def)
  from good bad show ?thesis by blast
qed

theorem C9_address_round_trip_witness:
  "(\<forall>x. 4 \<le> length (sha2 demoLib x)) \<and>
   bs58check_decode demoLib (getAddress demoLib [2, 3]) = Inr (0 # replicate 20 32) \<and>
   length [1, 2, 3, 4 :: 8 word] = 4 \<and> [1, 2, 3, 4] \<noteq> checksum demoLib [0, 7] \<and>
   bs58check_decode demoLib (base58_encode ([0, 7] @ [1, 2, 3, 4])) = Inl InvalidChecksum"
proof -
  have h: "\<forall>x. 4 \<le> length (sha2 demoLib x)" by (simp add: demoLib_def)
  have "checksum demoLib [0, 7] = replicate 4 32"
    by (simp add: checksum_def demoLib_def)
  moreover have "replicate 4 (32 :: 8 word) = [32, 32, 32, 32]"
    by (simp add: numeral_eq_Suc)
  ultimately have c: "[1, 2, 3, 4] \<noteq> checksum demoLib [0, 7]"
    by simp
  from C9_address_round_trip [OF h, of "[2, 3]" "[1, 2, 3, 4]" "[0, 7]"] c
  have "bs58check_decode demoLib (getAddress demoLib [2, 3])
          = Inr (0 # ripemd160 demoLib (sha2 demoLib [2, 3]))"
    and "bs58check_decode demoLib (base58_encode ([0, 7] @ [1, 2, 3, 4])) = Inl InvalidChecksum"
    by simp_all
  moreover have "ripemd160 demoLib (sha2 demoLib [2, 3]) = replicate 20 32"
    by (simp add: demoLib_def)
  ultimately show ?thesis using h c by simp
qed

section \<open>The claims about amounts, in the arithmetic of doubles\<close>

lemma scale_up_small: "y < 2 ^ 53 \<Longrightarrow> scale_up y e = (y, e)"
  by (simp add: scale_up.simps)

lemma scale_down_steps:
  "2 ^ 52 \<le> y * 2 ^ j \<Longrightarrow> y * 2 ^ j < 2 ^ 53 \<Longrightarrow> - 1074 \<le> e - int j \<Longrightarrow>
     scale_down y e = (y * 2 ^ j, e - int j)"
proof (induction j arbitrary: y e)
  case 0
  then show ?case by (simp add: scale_down.simps)
next
  case (Suc j)
  have "(1::rat) \<le> 2 ^ j" by simp
  then have "y * 2 * 1 \<le> y * 2 * 2 ^ j" if "0 \<le> y"
    using that by (intro mult_left_mono) simp_all
  moreover have "0 \<le> y"
  proof -
    have "(0::rat) < 2 ^ 52" by simp
    from this Suc.prems(1) have "0 < y * 2 ^ Suc j" by (rule less_le_trans)
    then show ?thesis by (simp add: zero_less_mult_iff)
  qed
  ultimately have "y * 2 \<le> y * 2 ^ Suc j" by (simp add: mult.assoc)
  with Suc.prems have small: "y < 2 ^ 52" by simp
  from Suc.prems have e: "- 1074 < e" by simp
  from Suc.prems have "scale_down (y * 2) (e - 1) = (y * 2 * 2 ^ j, e - 1 - int j)"
    by (intro Suc.IH) (simp_all add: mult.assoc)
  with small e show ?case
    by (simp add: scale_down.simps [of y e] mult.assoc)
qed

lemma round_half_even_bounds: "0 \<le> y \<Longrightarrow> 0 \<le> round_half_even y"
  and round_half_even_le: "y < of_int m \<Longrightarrow> round_half_even y \<le> m"
proof -
  show "0 \<le> round_half_even y" if "0 \<le> y"
    using that by (auto simp: round_half_even_def Let_def)
  show "round_half_even y \<le> m" if "y < of_int m"
  proof -
    from that have "\<lfloor>y\<rfloor> < m" by (simp add: floor_less_iff)
    then show ?thesis by (auto simp: round_half_even_def Let_def)
  qed
qed

lemma round_half_even_int: "round_half_even (of_int k) = k"
  by (simp add: round_half_even_def Let_def)

lemma round_pos_normal:
  assumes "x < 2 ^ 53" and "2 ^ 52 \<le> x * 2 ^ j" and "x * 2 ^ j < 2 ^ 53" and "j \<le> 1074"
  shows "round_pos x = Fin (of_int (round_half_even (x * 2 ^ j)) / 2 ^ j)"
proof -
  from assms have sd: "scale_down x 0 = (x * 2 ^ j, - int j)"
    using scale_down_steps [of x j 0] by simp
  have p: "pow2 (- int j) = 1 / 2 ^ j"
    by (simp add: pow2_def)
  from assms(3) have "round_half_even (x * 2 ^ j) \<le> 2 ^ 53"
    using round_half_even_le [of "x * 2 ^ j" "2 ^ 53"] by simp
  then have "(of_int (round_half_even (x * 2 ^ j)) :: rat) \<le> of_int (2 ^ 53)"
    by (simp only: of_int_le_iff)
  then have m: "(of_int (round_half_even (x * 2 ^ j)) :: rat) \<le> 2 ^ 53" by simp
  have "(of_int (round_half_even (x * 2 ^ j)) :: rat) / 2 ^ j \<le> of_int (round_half_even (x * 2 ^ j))"
  proof -
    have "0 \<le> x * 2 ^ j" using assms(2) by (simp add: order_trans [of 0 "2 ^ 52"])
    then have "0 \<le> round_half_even (x * 2 ^ j)" by (rule round_half_even_bounds)
    then have nn: "(0::rat) \<le> of_int (round_half_even (x * 2 ^ j))" by simp
    have "(1::rat) \<le> 2 ^ j" by simp
    with nn have "of_int (round_half_even (x * 2 ^ j)) * 1
        \<le> (of_int (round_half_even (x * 2 ^ j)) :: rat) * 2 ^ j"
      by (rule mult_left_mono [rotated])
    then show ?thesis by (simp add: divide_le_eq)
  qed
  with m have "(of_int (round_half_even (x * 2 ^ j)) :: rat) / 2 ^ j \<le> 2 ^ 53" by simp
  moreover have "(2::rat) ^ 53 < 2 ^ 1024" by simp
  ultimately have "\<not> 2 ^ 1024 \<le> (of_int (round_half_even (x * 2 ^ j)) :: rat) / 2 ^ j"
    by simp
  then show ?thesis
    using assms(1) sd p by (simp add: round_pos_def scale_up_small Let_def)
qed

lemma normal_exponent:
  fixes n :: nat
  assumes "0 < n" and "n < 2 ^ 53"
  shows "\<exists>j\<le>52. 2 ^ 52 \<le> n * 2 ^ j \<and> n * 2 ^ j < 2 ^ 53"
proof -
  define j where "j = (LEAST j. (2::nat) ^ 52 \<le> n * 2 ^ j)"
  from assms(1) have "1 * (2::nat) ^ 52 \<le> n * 2 ^ 52"
    by (intro mult_right_mono) simp_all
  then have top: "(2::nat) ^ 52 \<le> n * 2 ^ 52" by simp
  then have lower: "(2::nat) ^ 52 \<le> n * 2 ^ j"
    unfolding j_def by (rule LeastI)
  from top have le: "j \<le> 52"
    unfolding j_def by (rule Least_le)
  have upper: "n * 2 ^ j < 2 ^ 53"
  proof (cases j)
    case 0
    with assms(2) show ?thesis by simp
  next
    case (Suc i)
    then have "i < j" by simp
    then have "\<not> (2::nat) ^ 52 \<le> n * 2 ^ i"
      unfolding j_def by (rule not_less_Least)
    then have "n * 2 ^ i < 2 ^ 52" by simp
    then have "n * 2 ^ i * 2 < 2 ^ 52 * 2" by simp
    with Suc show ?thesis by (simp add: mult.assoc)
  qed
  from le lower upper show ?thesis by blast
qed

lemma round_pos_nat:
  fixes n :: nat
  assumes "0 < n" and "n < 2 ^ 53"
  shows "round_pos (of_nat n) = Fin (of_nat n)"
proof -
  from normal_exponent [OF assms] obtain j where j: "j \<le> 52"
    and lower: "2 ^ 52 \<le> n * 2 ^ j" and upper: "n * 2 ^ j < 2 ^ 53"
    by blast
  have eq: "(of_nat n :: rat) * 2 ^ j = of_int (int (n * 2 ^ j))" by simp
  from lower have "(of_nat (2 ^ 52) :: rat) \<le> of_nat (n * 2 ^ j)"
    by (simp only: of_nat_le_iff)
  then have l: "(2::rat) ^ 52 \<le> of_nat n * 2 ^ j" by simp
  from upper have "(of_nat (n * 2 ^ j) :: rat) < of_nat (2 ^ 53)"
    by (simp only: of_nat_less_iff)
  then have u: "(of_nat n :: rat) * 2 ^ j < 2 ^ 53" by simp
  from assms(2) have "(of_nat n :: rat) < of_nat (2 ^ 53)"
    by (simp only: of_nat_less_iff)
  then have small: "(of_nat n :: rat) < 2 ^ 53" by simp
  from j have "j \<le> 1074" by simp
  from round_pos_normal [OF small l u this]
  have "round_pos (of_nat n) = Fin (of_int (round_half_even (of_nat n * 2 ^ j)) / 2 ^ j)" .
  also have "round_half_even (of_nat n * 2 ^ j) = int (n * 2 ^ j)"
    unfolding eq by (rule round_half_even_int)
  finally show ?thesis by simp
qed

lemma round_double_int:
  assumes "\<bar>k\<bar> < 2 ^ 53"
  shows "round_double (of_int k) = Fin (of_int k)"
proof (cases "k = 0")
  case True
  then show ?thesis by (simp add: round_double_def)
next
  case False
  define n where "n = nat \<bar>k\<bar>"
  from False assms have n: "0 < n" "n < 2 ^ 53"
    by (simp_all add: n_def nat_less_iff)
  from round_pos_nat [OF n] have r: "round_pos (of_int \<bar>k\<bar>) = Fin (of_int \<bar>k\<bar>)"
    by (simp add: n_def)
  show ?thesis
  proof (cases "0 < k")
    case True
    with r show ?thesis by (simp add: round_double_def)
  next
    case neg: False
    with False have "k < 0" by simp
    with r show ?thesis by (simp add: round_double_def)
  qed
qed

lemma round_pos_cases: "round_pos x = PosInf \<or> (\<exists>f. round_pos x = Fin f)"
  by (auto simp: round_pos_def Let_def split: prod.splits)


lemma round_double_cases:
  "round_double x = PosInf \<or> round_double x = NegInf \<or> (\<exists>f. round_double x = Fin f)"
  using round_pos_cases [of x] round_pos_cases [of "- x"]
  by (auto simp: round_double_def)

lemma round_double_pos:
  "0 < x \<Longrightarrow> round_double x = PosInf \<or> (\<exists>f. round_double x = Fin f)"
  using round_pos_cases [of x] by (auto simp: round_double_def)

lemma round_double_normal:
  assumes "0 < x" and "x < 2 ^ 53" and "2 ^ 52 \<le> x * 2 ^ j" and "x * 2 ^ j < 2 ^ 53"
    and "j \<le> 1074"
  shows "round_double x = Fin (of_int (round_half_even (x * 2 ^ j)) / 2 ^ j)"
  using assms(1) round_pos_normal [OF assms(2-5)] by (simp add: round_double_def)

lemma round_half_even_near:
  assumes "of_int m - 1 / 2 < y" and "y < of_int m + 1 / 2"
  shows "round_half_even y = m"
proof (cases "of_int m \<le> y")
  case True
  with assms(2) have "\<lfloor>y\<rfloor> = m" by (simp add: floor_eq_iff)
  with assms(2) show ?thesis by (simp add: round_half_even_def Let_def)
next
  case False
  with assms(1) have "\<lfloor>y\<rfloor> = m - 1" by (simp add: floor_eq_iff)
  with assms(1) show ?thesis by (simp add: round_half_even_def Let_def)
qed

lemma fee_tiny: "dbl_mul (num 160) (Fin (1 / 2 ^ 70)) = Fin (5 / 2 ^ 65)"
proof -
  have "round_double (5 / 2 ^ 65) = Fin (of_int (round_half_even (5 / 2 ^ 65 * 2 ^ 115)) / 2 ^ 115)"
    by (rule round_double_normal) simp_all
  also have "(5 / 2 ^ 65 * 2 ^ 115 :: rat) = of_int (5 * 2 ^ 50)" by simp
  also have "round_half_even (of_int (5 * 2 ^ 50)) = 5 * 2 ^ 50" by (rule round_half_even_int)
  finally have "round_double (5 / 2 ^ 65) = Fin (5 / 2 ^ 65)" by simp
  moreover have "(160 * (1 / 2 ^ 70) :: rat) = 5 / 2 ^ 65" by simp
  ultimately show ?thesis by (simp add: num_def)
qed

lemma fee_tiny_absorbed: "dbl_sub (num 1100000) (Fin (5 / 2 ^ 65)) = Fin 1100000"
proof -
  let ?x = "1100000 - 5 / 2 ^ 65 :: rat"
  have "round_double ?x = Fin (of_int (round_half_even (?x * 2 ^ 32)) / 2 ^ 32)"
    by (rule round_double_normal) simp_all
  moreover have "round_half_even (?x * 2 ^ 32) = 1100000 * 2 ^ 32"
    by (rule round_half_even_near) simp_all
  ultimately have "round_double ?x = Fin 1100000" by simp
  then show ?thesis by (simp add: dbl_sub_def num_def)
qed



lemma fee_boundary_exact: "(999002 :: rat) < 119 * (2307593099099747 / 2 ^ 38)"
  by simp

lemma outs_deductFee_double:
  "outs (deductFee_double (draftTx L w inputs) fee) =
     [\<lparr>out_script = toOutputScript L EXODUS_ADDRESS,
       out_value = dbl_sub (num (inputAmount inputs)) fee\<rparr>,
      \<lparr>out_script = pubKeyHashOutput L (Buffer_hex L (addresses_cosmos w)),
       out_value = num MINIMUM_OUTPUT\<rparr>]"
  by (simp add: deductFee_double_def outs_draftTx)

lemma ins_deductFee_double:
  "ins (deductFee_double (draftTx L w inputs) fee) = map (unsignedInput L) inputs"
  by (simp add: deductFee_double_def ins_draftTx)

lemma double_success:
  assumes "createFinalTx_double L DEV w inputs feeRate = Inr res"
  shows "\<exists>r f. feeRate = Number (Fin r) \<and> 0 < r \<and>
           MINIMUM_AMOUNT DEV \<le> inputAmount inputs \<and>
           feeAmount res = Fin f \<and>
           round_double (of_nat (byteLength (draftTx L w inputs)) * r) = Fin f \<and>
           \<not> js_lt (round_double (of_int (inputAmount inputs) - f)) (num MINIMUM_OUTPUT) \<and>
           sign_inputs L w inputs 0 (deductFee_double (draftTx L w inputs) (Fin f)) = Inr (tx res) \<and>
           outs (tx res) = outs (deductFee_double (draftTx L w inputs) (Fin f)) \<and>
           paidAmount res = inputAmount inputs \<and>
           atomAmount res =
             dbl_div (dbl_mul (out_value (outs (tx res) ! 0)) (num ATOMS_PER_BTC)) (Fin 100000000)"
proof -
  let ?t = "draftTx L w inputs"
  let ?fee = "dbl_mul (num (int (byteLength ?t))) (toNumber feeRate)"
  have bl: "0 < byteLength ?t" by (rule byteLength_pos)
  from assms have amt: "MINIMUM_AMOUNT DEV \<le> inputAmount inputs"
    and ok: "truthy feeRate" "\<not> js_lt (toNumber feeRate) (Fin 0)"
    and test: "\<not> js_lt (dbl_sub (num (inputAmount inputs)) ?fee) (num MINIMUM_OUTPUT)"
    by (auto simp: createFinalTx_double_def Let_def outs_draftTx split: if_splits)
  from assms amt ok test obtain t' where
    sg: "sign_inputs L w inputs 0 (deductFee_double ?t ?fee) = Inr t'"
    and res: "res = \<lparr>tx = t', paidAmount = inputAmount inputs, feeAmount = ?fee,
                      atomAmount = dbl_div (dbl_mul (out_value (outs t' ! 0)) (num ATOMS_PER_BTC))
                                           (Fin 100000000)\<rparr>"
    by (auto simp: createFinalTx_double_def Let_def outs_draftTx split: sum.splits)
  from ok obtain r where r: "feeRate = Number (Fin r) \<and> 0 < r \<or> feeRate = Number PosInf"
  proof (cases feeRate)
    case (Number x)
    with ok that show ?thesis by (cases x) auto
  qed simp_all
  have not_inf: "?fee \<noteq> PosInf"
  proof
    assume "?fee = PosInf"
    with test show False by (simp add: dbl_sub_def num_def)
  qed
  from r not_inf bl have fr: "feeRate = Number (Fin r)" "0 < r"
    by (auto simp: num_def js_inf_def)
  then have fee_eq: "?fee = round_double (of_nat (byteLength ?t) * r)"
    by (simp add: num_def)
  from bl fr(2) have "0 < (of_nat (byteLength ?t) :: rat) * r" by simp
  from round_double_pos [OF this] not_inf fee_eq obtain f where
    f: "round_double (of_nat (byteLength ?t) * r) = Fin f" by auto
  with fee_eq have fee: "?fee = Fin f" by simp
  from test fee have t2: "\<not> js_lt (round_double (of_int (inputAmount inputs) - f)) (num MINIMUM_OUTPUT)"
    by (simp add: dbl_sub_def num_def)
  from sg fee have sg': "sign_inputs L w inputs 0 (deductFee_double ?t (Fin f)) = Inr t'" by simp
  from sign_inputs_frame [OF sg'] have "outs t' = outs (deductFee_double ?t (Fin f))" by simp
  with fr amt f t2 sg' res fee show ?thesis by simp
qed

lemma double_fee:
  assumes "createFinalTx_double L DEV w inputs feeRate = Inr res"
  shows "feeAmount res = dbl_mul (num (int (byteLength (draftTx L w inputs)))) (toNumber feeRate)"
  using assms
  by (auto simp: createFinalTx_double_def Let_def split: if_splits sum.splits)

lemma double_out0:
  assumes "createFinalTx_double L DEV w inputs feeRate = Inr res"
  shows "out_value (outs (tx res) ! 0) = dbl_sub (num (inputAmount inputs)) (feeAmount res)"
    and "out_value (hd (outs (tx res))) = dbl_sub (num (inputAmount inputs)) (feeAmount res)"
proof -
  from double_success [OF assms] obtain f where "feeAmount res = Fin f"
    and "outs (tx res) = outs (deductFee_double (draftTx L w inputs) (Fin f))"
    by blast
  then show "out_value (outs (tx res) ! 0) = dbl_sub (num (inputAmount inputs)) (feeAmount res)"
    and "out_value (hd (outs (tx res))) = dbl_sub (num (inputAmount inputs)) (feeAmount res)"
    by (simp_all add: outs_deductFee_double)
qed

lemma double_returns:
  assumes "MINIMUM_AMOUNT DEV \<le> inputAmount inputs" and "0 < r"
    and "dbl_mul (num (int (byteLength (draftTx L w inputs)))) (Fin r) = fee"
    and "\<not> js_lt (dbl_sub (num (inputAmount inputs)) fee) (num MINIMUM_OUTPUT)"
  shows "\<exists>res. createFinalTx_double L DEV w inputs (Number (Fin r)) = Inr res"
proof -
  let ?t = "draftTx L w inputs"
  have "length (ins (deductFee_double ?t fee)) \<le> length inputs"
    by (simp add: ins_deductFee_double)
  then obtain t' where "sign_inputs L w inputs 0 (deductFee_double ?t fee) = Inr t'"
    using sign_inputs_returns by blast
  with assms show ?thesis
    by (simp add: createFinalTx_double_def Let_def outs_draftTx)
qed




text \<open>
  For a whole-number fee rate, with the fee and the remaining value below \<open>2 ^ 53\<close>
  in magnitude, no operation rounds: both versions of the builder return the same
  transaction, the same paid amount and the same fee.
\<close>

lemma double_agrees_with_exact:
  assumes "0 < k" and "int (byteLength (draftTx L w inputs)) * k < 2 ^ 53"
    and "\<bar>inputAmount inputs - int (byteLength (draftTx L w inputs)) * k\<bar> < 2 ^ 53"
  shows "map_sum id (\<lambda>res. (tx res, paidAmount res, feeAmount res))
           (createFinalTx_double L DEV w inputs (Number (Fin (of_int k))))
         = map_sum id (\<lambda>res. (tx res, paidAmount res, feeAmount res))
           (createFinalTx L DEV w inputs (Number (Fin (of_int k))))"
proof -
  let ?t = "draftTx L w inputs"
  let ?b = "int (byteLength ?t)"
  let ?A = "inputAmount inputs"
  let ?F = "Fin (of_int (?b * k))"
  from assms(1,2) have "\<bar>?b * k\<bar> < 2 ^ 53" by simp
  from round_double_int [OF this]
  have fee_d: "dbl_mul (num ?b) (toNumber (Number (Fin (of_int k)))) = ?F"
    by (simp add: num_def)
  have fee_e: "js_mul (num ?b) (toNumber (Number (Fin (of_int k)))) = ?F"
    by (simp add: num_def)
  have out0: "out_value (outs ?t ! 0) = num ?A"
    by (simp add: outs_draftTx)
  have "dbl_sub (num ?A) ?F = round_double (of_int (?A - ?b * k))"
    by (simp add: dbl_sub_def num_def)
  also from round_double_int [OF assms(3)]
  have "round_double (of_int (?A - ?b * k)) = Fin (of_int (?A - ?b * k))" .
  also have "Fin (of_int (?A - ?b * k)) = js_sub (num ?A) ?F"
    by (simp add: js_sub_def num_def)
  finally have sub: "dbl_sub (num ?A) ?F = js_sub (num ?A) ?F" .
  have ded: "deductFee_double ?t ?F = deductFee ?t ?F"
    unfolding deductFee_double_def deductFee_def out0 sub ..
  show ?thesis
    unfolding createFinalTx_double_def createFinalTx_def Let_def fee_d fee_e out0 sub ded
    by (simp split: sum.splits)
qed

text \<open>
  The inputs, the number of outputs and the unlocking scripts do not depend on the
  arithmetic: a successful build with doubles has the inputs in the order given, two
  outputs, and for each input the script computed from the state in which the earlier
  inputs are signed.
\<close>

lemma double_structure:
  assumes "createFinalTx_double L DEV w inputs feeRate = Inr res"
  shows "map in_hash (ins (tx res)) = map (\<lambda>output. Buffer_hex L (tx_hash output)) inputs"
    and "map in_index (ins (tx res)) = map tx_output_n inputs"
    and "length (outs (tx res)) = 2"
    and "i < length inputs \<Longrightarrow>
           in_script (ins (tx res) ! i) =
             scriptSig L w (inputs ! i) i
               ((tx res)\<lparr>ins := take i (ins (tx res)) @ drop i (map (unsignedInput L) inputs)\<rparr>)"
proof -
  from double_success [OF assms] obtain f where
    sg: "sign_inputs L w inputs 0 (deductFee_double (draftTx L w inputs) (Fin f)) = Inr (tx res)"
    by blast
  let ?d = "deductFee_double (draftTx L w inputs) (Fin f)"
  have insd: "ins ?d = map (unsignedInput L) inputs"
    by (rule ins_deductFee_double)
  from sign_inputs_frame [OF sg]
  show "map in_hash (ins (tx res)) = map (\<lambda>output. Buffer_hex L (tx_hash output)) inputs"
    and "map in_index (ins (tx res)) = map tx_output_n inputs"
    and "length (outs (tx res)) = 2"
    by (simp_all add: insd outs_deductFee_double unsignedInput_def comp_def)
  show "in_script (ins (tx res) ! i) =
             scriptSig L w (inputs ! i) i
               ((tx res)\<lparr>ins := take i (ins (tx res)) @ drop i (map (unsignedInput L) inputs)\<rparr>)"
    if i: "i < length inputs"
  proof -
    from sign_inputs_frame [OF sg] have "tx res = ?d\<lparr>ins := ins (tx res)\<rparr>" by simp
    from arg_cong [OF this, of "\<lambda>t. t\<lparr>ins := Y\<rparr>" for Y]
    have same: "?d\<lparr>ins := Y\<rparr> = (tx res)\<lparr>ins := Y\<rparr>" for Y by simp
    from sign_inputs_scripts [OF sg] i insd
    have "ins (tx res) ! i =
          (ins ?d ! i)\<lparr>in_script :=
             scriptSig L w (inputs ! i) i (?d\<lparr>ins := take i (ins (tx res)) @ drop i (ins ?d)\<rparr>)\<rparr>"
      by simp
    with same show ?thesis by (simp add: insd)
  qed
qed

text \<open>
  Claim C2, as stated, says that the fee is the product of the byte length and the fee
  rate truncated to a whole number of satoshis.  The source multiplies and does not
  truncate.  At the rate \<open>2 ^ -70\<close>, which is a double, the sample transaction of 160
  bytes is charged \<open>5 / 2 ^ 65\<close> satoshis, not 0; the subtraction of line 120 rounds
  the first output back to the whole number 1100000.
\<close>

theorem C2_fee_truncated_counterexample:
  "map_sum id feeAmount
     (createFinalTx_double demoLib False demoWallet demoInputs (Number (Fin (1 / 2 ^ 70))))
     = Inr (Fin (5 / 2 ^ 65)) \<and>
   map_sum id (out_value \<circ> hd \<circ> outs \<circ> tx)
     (createFinalTx_double demoLib False demoWallet demoInputs (Number (Fin (1 / 2 ^ 70))))
     = Inr (Fin 1100000) \<and>
   round_double (1 / 2 ^ 70) = Fin (1 / 2 ^ 70) \<and>
   Fin (5 / 2 ^ 65)
     \<noteq> Fin (of_int \<lfloor>of_nat (byteLength (draftTx demoLib demoWallet demoInputs)) * (1 / 2 ^ 70 :: rat)\<rfloor>)"
proof -
  let ?call = "createFinalTx_double demoLib False demoWallet demoInputs (Number (Fin (1 / 2 ^ 70)))"
  have fee: "dbl_mul (num (int (byteLength (draftTx demoLib demoWallet demoInputs)))) (Fin (1 / 2 ^ 70))
               = Fin (5 / 2 ^ 65)"
    unfolding byteLength_demo using fee_tiny by simp
  have amt: "MINIMUM_AMOUNT False \<le> inputAmount demoInputs"
    by (simp add: inputAmount_demo MINIMUM_AMOUNT_def)
  have test: "\<not> js_lt (dbl_sub (num (inputAmount demoInputs)) (Fin (5 / 2 ^ 65))) (num MINIMUM_OUTPUT)"
    unfolding inputAmount_demo fee_tiny_absorbed by (simp add: num_def MINIMUM_OUTPUT_def)
  have "(0::rat) < 1 / 2 ^ 70" by simp
  from double_returns [OF amt this fee test] have "\<exists>res. ?call = Inr res" .
  then obtain res where res: "?call = Inr res" by blast
  from double_fee [OF res] have a: "feeAmount res = Fin (5 / 2 ^ 65)"
    unfolding toNumber.simps fee .
  from double_out0(2) [OF res] have b: "(out_value \<circ> hd \<circ> outs \<circ> tx) res = Fin 1100000"
    unfolding a inputAmount_demo fee_tiny_absorbed by simp
  have c: "round_double (1 / 2 ^ 70) = Fin (1 / 2 ^ 70)"
  proof -
    have "round_double (1 / 2 ^ 70) = Fin (of_int (round_half_even (1 / 2 ^ 70 * 2 ^ 122)) / 2 ^ 122)"
      by (rule round_double_normal) simp_all
    also have "(1 / 2 ^ 70 * 2 ^ 122 :: rat) = of_int (2 ^ 52)" by simp
    also have "round_half_even (of_int (2 ^ 52)) = 2 ^ 52" by (rule round_half_even_int)
    finally show ?thesis by simp
  qed
  have "\<lfloor>160 * (1 / 2 ^ 70) :: rat\<rfloor> = 0" by (simp add: floor_eq_iff)
  then have d: "Fin (5 / 2 ^ 65)
     \<noteq> Fin (of_int \<lfloor>of_nat (byteLength (draftTx demoLib demoWallet demoInputs)) * (1 / 2 ^ 70 :: rat)\<rfloor>)"
    unfolding byteLength_demo by simp
  from res a b c d show ?thesis by simp
qed

text \<open>
  Claim C2, amended.  For every successful build the fee is the product, as a double,
  of the fee rate and the byte length of the transaction with its inputs unsigned (empty
  unlocking scripts) and both outputs appended: the exact product rounded to the nearest
  double, not truncated.  For a whole-number rate with a product below \<open>2 ^ 53\<close> it
  is the exact product, which is then its own truncation.
\<close>

theorem C2_fee_amount:
  assumes "createFinalTx_double L DEV w inputs feeRate = Inr res"
  shows "\<exists>r f. 0 < r \<and> feeRate = Number (Fin r) \<and>
           feeAmount res = Fin f \<and>
           round_double (of_nat (byteLength (draftTx L w inputs)) * r) = Fin f \<and>
           length (ins (draftTx L w inputs)) = length inputs \<and>
           (\<forall>i \<in> set (ins (draftTx L w inputs)). in_script i = []) \<and>
           length (outs (draftTx L w inputs)) = 2 \<and>
           (\<forall>k. r = of_int k \<and> int (byteLength (draftTx L w inputs)) * k < 2 ^ 53 \<longrightarrow>
              f = of_int (int (byteLength (draftTx L w inputs)) * k) \<and>
              f = of_int \<lfloor>of_nat (byteLength (draftTx L w inputs)) * r\<rfloor>)"
proof -
  let ?b = "byteLength (draftTx L w inputs)"
  from double_success [OF assms] obtain r f where r: "0 < r" "feeRate = Number (Fin r)"
    and fee: "feeAmount res = Fin f" "round_double (of_nat ?b * r) = Fin f"
    by blast
  have whole: "f = of_int (int ?b * k) \<and> f = of_int \<lfloor>of_nat ?b * r\<rfloor>"
    if k: "r = of_int k" "int ?b * k < 2 ^ 53" for k
  proof -
    from r(1) k(1) have "0 < k" by simp
    with k(2) have "\<bar>int ?b * k\<bar> < 2 ^ 53" by simp
    from round_double_int [OF this] fee(2) k(1) have "f = of_int (int ?b * k)" by simp
    moreover have "(of_nat ?b :: rat) * r = of_int (int ?b * k)" using k(1) by simp
    then have "\<lfloor>of_nat ?b * r\<rfloor> = int ?b * k" by (simp only: floor_of_int)
    ultimately show ?thesis by simp
  qed
  from r fee whole show ?thesis
    by (auto simp: ins_draftTx outs_draftTx unsignedInput_def)
qed

lemma demo_returns_double:
  "\<exists>res. createFinalTx_double demoLib False demoWallet demoInputs (Number (Fin 50)) = Inr res"
proof -
  have "\<bar>8000 :: int\<bar> < 2 ^ 53" by simp
  from round_double_int [OF this]
  have fee: "dbl_mul (num (int (byteLength (draftTx demoLib demoWallet demoInputs)))) (Fin 50) = Fin 8000"
    unfolding byteLength_demo by (simp add: num_def)
  have "\<bar>1092000 :: int\<bar> < 2 ^ 53" by simp
  from round_double_int [OF this]
  have "dbl_sub (num (inputAmount demoInputs)) (Fin 8000) = Fin 1092000"
    unfolding inputAmount_demo by (simp add: dbl_sub_def num_def)
  then have test: "\<not> js_lt (dbl_sub (num (inputAmount demoInputs)) (Fin 8000)) (num MINIMUM_OUTPUT)"
    by (simp add: num_def MINIMUM_OUTPUT_def)
  have amt: "MINIMUM_AMOUNT False \<le> inputAmount demoInputs"
    by (simp add: inputAmount_demo MINIMUM_AMOUNT_def)
  have "(0::rat) < 50" by simp
  from double_returns [OF amt this fee test] show ?thesis .
qed

theorem C2_fee_amount_witness:
  "\<exists>res. createFinalTx_double demoLib False demoWallet demoInputs (Number (Fin 50)) = Inr res \<and>
     feeAmount res = Fin 8000"
proof -
  from demo_returns_double obtain res where
    res: "createFinalTx_double demoLib False demoWallet demoInputs (Number (Fin 50)) = Inr res"
    by blast
  from C2_fee_amount [OF res] obtain r f where r: "Number (Fin 50) = Number (Fin r)"
    and f: "feeAmount res = Fin f"
    and whole: "\<forall>k. r = of_int k \<and>
        int (byteLength (draftTx demoLib demoWallet demoInputs)) * k < 2 ^ 53 \<longrightarrow>
        f = of_int (int (byteLength (draftTx demoLib demoWallet demoInputs)) * k) \<and>
        f = of_int \<lfloor>of_nat (byteLength (draftTx demoLib demoWallet demoInputs)) * r\<rfloor>"
    by blast
  from r have "r = of_int 50" by simp
  with whole [rule_format, of 50] have "f = 8000"
    unfolding byteLength_demo by simp
  with f res show ?thesis by (intro exI [of _ res]) simp
qed






end
